theory Spec2Isabelle
  imports Main "HOL-Library.AList"
begin

section \<open>The errors cache of \<^verbatim>\<open>src/server/utils/errorsCache.ts\<close>\<close>

text \<open>
  The class \<^verbatim>\<open>ErrorsCache\<close> keeps, per file path, the list of diagnostics
  (\<^verbatim>\<open>CodeError\<close>) last reported for that file, sends a size-limited view of
  it to its subscribers and computes an added/removed delta against the state it sent
  last. This theory embeds the class as functions on an explicit state and proves the
  properties of the diff, of the delta application and of the limited view.

  Modelling conventions.
  \<^item> A JavaScript object used as a dictionary is an association list in insertion order
    with distinct keys (\<open>wf_store\<close>): \<^verbatim>\<open>o[k]\<close> is \<open>map_of o k\<close>
    (\<open>None\<close> for \<^verbatim>\<open>undefined\<close>), \<^verbatim>\<open>o[k] = v\<close> is \<open>AList.update k v o\<close>
    (an existing key keeps its place, a new key goes last) and \<^verbatim>\<open>Object.keys\<close> and
    \<^verbatim>\<open>for ... in\<close> walk the list from the left. Keys are file paths and error keys:
    they are taken not to be canonical array indices (which JavaScript would enumerate
    first) nor names of members of \<^verbatim>\<open>Object.prototype\<close>.
  \<^item> Every stored value is an array, which is truthy also when empty, so the test
    \<^verbatim>\<open>!o[k]\<close> is \<open>map_of o k = None\<close>.
  \<^item> Line and character numbers are integers.
\<close>

subsection \<open>Diagnostics and their identity key\<close>

record EditorPosition =
  line :: int
  ch :: int

text \<open>
  Modelled from the spec: the declaration of the type \<^verbatim>\<open>CodeError\<close>, which the
  sources use and do not contain. A diagnostic has \<^verbatim>\<open>filePath\<close>, \<^verbatim>\<open>from\<close>,
  \<^verbatim>\<open>to\<close>, \<^verbatim>\<open>message\<close> and producer-defined payload fields that the cache does
  not interpret; the payload is the type parameter. (\<^verbatim>\<open>from\<close> is a keyword of the
  proof language, hence \<open>from_pos\<close> and \<open>to_pos\<close>; a bound file path is \<open>fp\<close>,
  since \<open>filePath\<close> is the field.)
\<close>

record 'p CodeError =
  filePath :: string
  from_pos :: EditorPosition
  to_pos :: EditorPosition
  message :: string
  payload :: 'p

text \<open>Decimal rendering of a number inside a template string.\<close>

definition digit_char :: "nat \<Rightarrow> char" where
  "digit_char d = char_of (48 + d)"

fun show_nat :: "nat \<Rightarrow> string" where
  "show_nat n = (if n < 10 then [digit_char n] else show_nat (n div 10) @ [digit_char (n mod 10)])"

declare show_nat.simps [simp del]

definition show_int :: "int \<Rightarrow> string" where
  "show_int i = (if i < 0 then CHR ''-'' # show_nat (nat (- i)) else show_nat (nat i))"

text \<open>
  \<^verbatim>\<open>const errorKey = (error:CodeError)=>`${error.from.line}:${error.from.ch}:${error.message}`;\<close>
\<close>

definition errorKey :: "'p CodeError \<Rightarrow> string" where
  "errorKey error =
     show_int (line (from_pos error)) @ '':'' @ show_int (ch (from_pos error)) @ '':'' @ message error"

subsection \<open>Stores, deltas and the helpers of \<^verbatim>\<open>common/utils\<close>\<close>

type_synonym 'p ErrorsByFilePath = "(string \<times> 'p CodeError list) list"

definition wf_store :: "('k \<times> 'v) list \<Rightarrow> bool" where
  "wf_store s = distinct (map fst s)"

record 'p ErrorCacheDelta =
  added :: "'p ErrorsByFilePath"
  removed :: "'p ErrorsByFilePath"

record 'p LimitedErrorsUpdate =
  errorsByFilePath :: "'p ErrorsByFilePath"
  totalCount :: nat
  syncCount :: nat
  tooMany :: bool

text \<open>
  Modelled from the spec: \<^verbatim>\<open>createMapByKey\<close>, imported from \<^verbatim>\<open>common/utils\<close>,
  which the sources do not contain. It groups the items of an array by a key (``groups
  diagnostics by filePath'', ``a lookup built from the old list's identity keys''): the
  result maps every key that occurs to the items that have it, in the order of the
  array, and has no other key. An error key always contains a colon, so that a lookup of
  one never meets a member of \<^verbatim>\<open>Object.prototype\<close>.
\<close>

definition createMapByKey :: "'v list \<Rightarrow> ('v \<Rightarrow> 'k) \<Rightarrow> ('k \<times> 'v list) list" where
  "createMapByKey arr getKey =
     foldl (\<lambda>result item.
              AList.update (getKey item)
                (case map_of result (getKey item) of
                   None \<Rightarrow> [item]
                 | Some items \<Rightarrow> items @ [item])
                result)
           [] arr"

text \<open>
  \<^verbatim>\<open>if (!m[fp]) m[fp] = []; m[fp].push(e);\<close>
\<close>

definition pushAt :: "'k \<Rightarrow> 'v \<Rightarrow> ('k \<times> 'v list) list \<Rightarrow> ('k \<times> 'v list) list" where
  "pushAt fp e m =
     AList.update fp ((case map_of m fp of None \<Rightarrow> [] | Some es \<Rightarrow> es) @ [e]) m"

subsection \<open>The delta of \<^verbatim>\<open>sendErrors\<close>\<close>

text \<open>
  One round of the loop ``Added'' of \<^verbatim>\<open>sendErrors\<close> (the loop ``Removed'' is the same
  code with old and new exchanged): a path the other snapshot does not have gives its
  whole list; otherwise the errors whose key the other list does not have are pushed,
  and the path becomes a key of the delta at the first push.
\<close>

definition diffPath ::
  "'p ErrorsByFilePath \<Rightarrow> 'p ErrorsByFilePath \<Rightarrow> string \<times> 'p CodeError list \<Rightarrow> 'p ErrorsByFilePath" where
  "diffPath other acc entry =
     (case entry of (fp, errors) \<Rightarrow>
        (case map_of other fp of
           None \<Rightarrow> AList.update fp errors acc
         | Some otherErrors \<Rightarrow>
             (let otherErrorMap = createMapByKey otherErrors errorKey
              in foldl (\<lambda>acc' e.
                          if map_of otherErrorMap (errorKey e) = None
                          then pushAt fp e acc' else acc')
                       acc errors)))"

definition computeDelta :: "'p ErrorsByFilePath \<Rightarrow> 'p ErrorsByFilePath \<Rightarrow> 'p ErrorCacheDelta" where
  "computeDelta oldErrorsByFilePath newErrorsByFilePath =
     \<lparr> added = foldl (diffPath oldErrorsByFilePath) [] newErrorsByFilePath,
       removed = foldl (diffPath newErrorsByFilePath) [] oldErrorsByFilePath \<rparr>"

subsection \<open>\<^verbatim>\<open>getErrorsLimited\<close>\<close>

text \<open>The loop, with the local \<^verbatim>\<open>total\<close> as \<open>totalN\<close>; leaving the loop is \<^verbatim>\<open>break\<close>.\<close>

fun limitLoop ::
  "'p ErrorsByFilePath \<Rightarrow> 'p ErrorsByFilePath \<times> nat \<Rightarrow> 'p ErrorsByFilePath \<times> nat" where
  "limitLoop [] (limitedCopy, totalN) = (limitedCopy, totalN)"
| "limitLoop ((fp, errs) # rest) (limitedCopy, totalN) =
     (let errors = (if length errs > 50 then take 50 errs else errs);
          limitedCopy' = AList.update fp errors limitedCopy;
          totalN' = totalN + length errors
      in if totalN' > 200 then (limitedCopy', totalN') else limitLoop rest (limitedCopy', totalN'))"

definition getErrorsLimited :: "'p ErrorsByFilePath \<Rightarrow> 'p LimitedErrorsUpdate" where
  "getErrorsLimited store =
     (case limitLoop store ([], 0) of (limitedCopy, totalN) \<Rightarrow>
        (let count = foldl (\<lambda>acc i. acc + i) 0 (map (\<lambda>x. length (snd x)) store)
         in \<lparr> errorsByFilePath = limitedCopy, totalCount = count,
              syncCount = totalN, tooMany = (totalN \<noteq> count) \<rparr>))"

subsection \<open>The cache\<close>

text \<open>
  Modelled from the spec: \<^verbatim>\<open>debounce\<close>, imported from \<^verbatim>\<open>common/utils\<close>, which the
  sources do not contain. The calls made within the quiet window collapse into one
  trailing run of the wrapped function. So the state of an \<^verbatim>\<open>ErrorsCache\<close> is its two
  private dictionaries and the timer of the debounced \<^verbatim>\<open>sendErrors\<close>: a call of
  \<^verbatim>\<open>this.sendErrors()\<close> arms the timer (\<open>sendErrorsPending\<close>), and
  \<open>sendErrorsFire\<close> is the run of the wrapped function when the timer expires, with
  the two events it emits as its result (nothing when the timer is not armed). The
  subscribers of the two events are outside the cache and are not modelled.
\<close>

record 'p ErrorsCache =
  this_errorsByFilePath :: "'p ErrorsByFilePath"
  lastErrorsByFilePath :: "'p ErrorsByFilePath"
  sendErrorsPending :: bool

definition newErrorsCache :: "'p ErrorsCache" where
  "newErrorsCache =
     \<lparr> this_errorsByFilePath = [], lastErrorsByFilePath = [], sendErrorsPending = False \<rparr>"

definition sendErrors :: "'p ErrorsCache \<Rightarrow> 'p ErrorsCache" where
  "sendErrors this = this\<lparr> sendErrorsPending := True \<rparr>"

definition sendErrorsFire ::
  "'p ErrorsCache \<Rightarrow> ('p LimitedErrorsUpdate \<times> 'p ErrorCacheDelta) option \<times> 'p ErrorsCache" where
  "sendErrorsFire this =
     (if sendErrorsPending this then
        (Some (getErrorsLimited (this_errorsByFilePath this),
               computeDelta (lastErrorsByFilePath this) (this_errorsByFilePath this)),
         this\<lparr> lastErrorsByFilePath :=
                  foldl (\<lambda>copy entry. AList.update (fst entry) (snd entry) copy) []
                    (this_errorsByFilePath this),
               sendErrorsPending := False \<rparr>)
      else (None, this))"

text \<open>The two loops of \<^verbatim>\<open>applyDelta\<close>, on the dictionary.\<close>

definition applyAdded :: "'p ErrorsByFilePath \<Rightarrow> 'p ErrorsByFilePath \<Rightarrow> 'p ErrorsByFilePath" where
  "applyAdded deltaAdded store =
     foldl (\<lambda>s entry.
              (case entry of (fp, addedErrors) \<Rightarrow>
                 (case map_of s fp of
                    None \<Rightarrow> AList.update fp addedErrors s
                  | Some es \<Rightarrow> AList.update fp (es @ addedErrors) s)))
           store deltaAdded"

definition applyRemoved :: "'p ErrorsByFilePath \<Rightarrow> 'p ErrorsByFilePath \<Rightarrow> 'p ErrorsByFilePath" where
  "applyRemoved deltaRemoved store =
     foldl (\<lambda>s entry.
              (case entry of (fp, removedErrors) \<Rightarrow>
                 (let removedErrorsMap = createMapByKey removedErrors errorKey
                  in AList.update fp
                       (filter (\<lambda>e. map_of removedErrorsMap (errorKey e) = None)
                          (case map_of s fp of None \<Rightarrow> [] | Some es \<Rightarrow> es))
                       s)))
           store deltaRemoved"

definition applyDeltaStore :: "'p ErrorsByFilePath \<Rightarrow> 'p ErrorCacheDelta \<Rightarrow> 'p ErrorsByFilePath" where
  "applyDeltaStore store delta = applyRemoved (removed delta) (applyAdded (added delta) store)"

definition applyDelta :: "'p ErrorCacheDelta \<Rightarrow> 'p ErrorsCache \<Rightarrow> 'p ErrorsCache" where
  "applyDelta delta this =
     sendErrors (this\<lparr> this_errorsByFilePath := applyDeltaStore (this_errorsByFilePath this) delta \<rparr>)"

text \<open>
  \<^verbatim>\<open>setErrorsByFilePaths\<close>. \<^verbatim>\<open>equal\<close> is the package \<^verbatim>\<open>deep-equal\<close>, a
  library outside the repository: on arrays of diagnostics (and \<^verbatim>\<open>undefined\<close>, which
  equals no array) it is structural equality, here the equality of HOL on
  \<open>map_of store fp\<close>. The two loops carry the local \<^verbatim>\<open>somethingNew\<close> and the
  dictionary.
\<close>

definition setFound ::
  "'p ErrorsByFilePath \<Rightarrow> bool \<times> 'p ErrorsByFilePath \<Rightarrow> bool \<times> 'p ErrorsByFilePath" where
  "setFound errorsByFile start =
     foldl (\<lambda>state entry.
              (case state of (somethingNew, store) \<Rightarrow>
                 (case entry of (fp, errors) \<Rightarrow>
                    if map_of store fp \<noteq> Some errors
                    then (True, AList.update fp errors store)
                    else (somethingNew, store))))
           start errorsByFile"

definition clearNotFound ::
  "'p ErrorsByFilePath \<Rightarrow> string list \<Rightarrow> bool \<times> 'p ErrorsByFilePath \<Rightarrow> bool \<times> 'p ErrorsByFilePath" where
  "clearNotFound errorsByFile filePaths start =
     foldl (\<lambda>state fp.
              (case state of (somethingNew, store) \<Rightarrow>
                 if map_of errorsByFile fp = None
                    \<and> (case map_of store fp of None \<Rightarrow> False | Some es \<Rightarrow> length es \<noteq> 0)
                 then (True, AList.update fp [] store)
                 else (somethingNew, store)))
           start filePaths"

definition setErrorsLoops ::
  "string list \<Rightarrow> 'p CodeError list \<Rightarrow> 'p ErrorsByFilePath \<Rightarrow> bool \<times> 'p ErrorsByFilePath" where
  "setErrorsLoops filePaths errors store =
     (let errorsByFile = createMapByKey errors filePath
      in clearNotFound errorsByFile filePaths (setFound errorsByFile (False, store)))"

definition setErrorsByFilePaths ::
  "string list \<Rightarrow> 'p CodeError list \<Rightarrow> 'p ErrorsCache \<Rightarrow> 'p ErrorsCache" where
  "setErrorsByFilePaths filePaths errors this =
     (case setErrorsLoops filePaths errors (this_errorsByFilePath this) of
        (somethingNew, store) \<Rightarrow>
          (let this' = this\<lparr> this_errorsByFilePath := store \<rparr>
           in if somethingNew then sendErrors this' else this'))"

definition clearErrors :: "'p ErrorsCache \<Rightarrow> 'p ErrorsCache" where
  "clearErrors this = sendErrors (this\<lparr> this_errorsByFilePath := [] \<rparr>)"

definition clearErrorsForFilePath :: "string \<Rightarrow> 'p ErrorsCache \<Rightarrow> 'p ErrorsCache" where
  "clearErrorsForFilePath fp this =
     sendErrors (this\<lparr> this_errorsByFilePath := AList.update fp [] (this_errorsByFilePath this) \<rparr>)"

definition getErrorsForFilePath :: "'p ErrorsByFilePath \<Rightarrow> string \<Rightarrow> 'p CodeError list" where
  "getErrorsForFilePath store fp =
     (case map_of store fp of None \<Rightarrow> [] | Some es \<Rightarrow> es)"

subsection \<open>Notions used by the properties\<close>

text \<open>
  The errors of a list whose identity key no error of the other list has, and the
  set of pairs of a file path and an identity key that a dictionary holds.
\<close>

definition missingFrom :: "'p CodeError list \<Rightarrow> 'p CodeError list \<Rightarrow> 'p CodeError list" where
  "missingFrom otherErrors errors =
     filter (\<lambda>e. errorKey e \<notin> errorKey ` set otherErrors) errors"

definition identityKeys :: "'p ErrorsByFilePath \<Rightarrow> (string \<times> string) set" where
  "identityKeys store = (\<Union>entry \<in> set store. (\<lambda>e. (fst entry, errorKey e)) ` set (snd entry))"

subsection \<open>Example data\<close>

text \<open>
  Diagnostics with a text as payload, for the scenario of the spec and for the concrete
  instances of the theorems: \<open>diag path from to message payload\<close>.
\<close>

definition diag ::
  "string \<Rightarrow> int \<times> int \<Rightarrow> int \<times> int \<Rightarrow> string \<Rightarrow> string \<Rightarrow> string CodeError" where
  "diag fp f t msg pl =
     \<lparr> filePath = fp, from_pos = \<lparr> line = fst f, ch = snd f \<rparr>,
       to_pos = \<lparr> line = fst t, ch = snd t \<rparr>, message = msg, payload = pl \<rparr>"

definition e1 :: "string CodeError" where
  "e1 = diag ''a.ts'' (1, 2) (1, 7) ''msg1'' ''error''"

definition e2 :: "string CodeError" where
  "e2 = diag ''b.ts'' (3, 4) (3, 9) ''msg2'' ''error''"

definition e3 :: "string CodeError" where
  "e3 = diag ''a.ts'' (1, 2) (1, 7) ''msg1-changed'' ''error''"

definition e1_moved :: "string CodeError" where
  "e1_moved = diag ''a.ts'' (1, 2) (2, 0) ''msg1'' ''warning''"

definition scenarioStore :: "string ErrorsByFilePath" where
  "scenarioStore = [(''a.ts'', [e1]), (''b.ts'', [e2])]"

definition scenarioCache :: "string ErrorsCache" where
  "scenarioCache =
     \<lparr> this_errorsByFilePath = scenarioStore, lastErrorsByFilePath = scenarioStore,
       sendErrorsPending = False \<rparr>"

definition scenarioStoreAfter :: "string ErrorsByFilePath" where
  "scenarioStoreAfter = [(''a.ts'', [e3]), (''b.ts'', [])]"

definition scenarioStoreMoved :: "string ErrorsByFilePath" where
  "scenarioStoreMoved = [(''a.ts'', [e1_moved]), (''b.ts'', [e2])]"

definition manyErrors :: "string \<Rightarrow> nat \<Rightarrow> string CodeError list" where
  "manyErrors fp n = map (\<lambda>i. diag fp (int i, 0) (int i, 1) ''m'' ''error'') [0..<n]"

definition bigStore :: "string ErrorsByFilePath" where
  "bigStore =
     [(''f0.ts'', manyErrors ''f0.ts'' 60), (''f1.ts'', manyErrors ''f1.ts'' 50),
      (''f2.ts'', manyErrors ''f2.ts'' 50), (''f3.ts'', manyErrors ''f3.ts'' 50),
      (''f4.ts'', manyErrors ''f4.ts'' 50), (''f5.ts'', manyErrors ''f5.ts'' 50)]"

definition staleDelta :: "string ErrorCacheDelta" where
  "staleDelta = \<lparr> added = [], removed = [(''a.ts'', [e3]), (''c.ts'', [e2])] \<rparr>"

section \<open>Properties\<close>

subsection \<open>Dictionaries and grouping\<close>

lemma wf_update: "wf_store s \<Longrightarrow> wf_store (AList.update k v s)"
  by (simp add: wf_store_def distinct_update)

lemma groupStep_map_of:
  "map_of (foldl (\<lambda>result item.
              AList.update (getKey item)
                (case map_of result (getKey item) of
                   None \<Rightarrow> [item]
                 | Some items \<Rightarrow> items @ [item])
                result) acc arr) k =
   (if filter (\<lambda>x. getKey x = k) arr = [] then map_of acc k
    else Some ((case map_of acc k of None \<Rightarrow> [] | Some l \<Rightarrow> l) @ filter (\<lambda>x. getKey x = k) arr))"
proof (induction arr arbitrary: acc)
  case Nil
  show ?case by simp
next
  case (Cons a arr)
  show ?case
    by (simp add: Cons.IH update_conv' split: option.splits)
qed

lemma map_of_createMapByKey:
  "map_of (createMapByKey arr getKey) k =
   (if k \<in> getKey ` set arr then Some (filter (\<lambda>x. getKey x = k) arr) else None)"
  unfolding createMapByKey_def groupStep_map_of
  by (auto simp: filter_empty_conv)

lemma createMapByKey_None:
  "map_of (createMapByKey arr getKey) k = None \<longleftrightarrow> k \<notin> getKey ` set arr"
  by (simp add: map_of_createMapByKey)

lemma groupStep_wf:
  "wf_store acc \<Longrightarrow> wf_store (foldl (\<lambda>result item.
              AList.update (getKey item)
                (case map_of result (getKey item) of
                   None \<Rightarrow> [item]
                 | Some items \<Rightarrow> items @ [item])
                result) acc arr)"
  by (induction arr arbitrary: acc) (simp_all add: wf_update)

lemma wf_createMapByKey: "wf_store (createMapByKey arr getKey)"
  unfolding createMapByKey_def by (rule groupStep_wf) (simp add: wf_store_def)

lemma pushLoop_map_of:
  "map_of (foldl (\<lambda>acc' e. if P e then pushAt fp e acc' else acc') acc errors) p =
   (if p = fp \<and> filter P errors \<noteq> []
    then Some ((case map_of acc fp of None \<Rightarrow> [] | Some es \<Rightarrow> es) @ filter P errors)
    else map_of acc p)"
proof (induction errors arbitrary: acc)
  case Nil
  show ?case by simp
next
  case (Cons a errors)
  show ?case
    by (simp add: Cons.IH pushAt_def update_conv' split: option.splits)
qed

lemma pushLoop_wf:
  "wf_store acc \<Longrightarrow> wf_store (foldl (\<lambda>acc' e. if P e then pushAt fp e acc' else acc') acc errors)"
  by (induction errors arbitrary: acc) (simp_all add: wf_update pushAt_def)

lemma pushLoop_keys:
  "fst ` set (foldl (\<lambda>acc' e. if P e then pushAt fp e acc' else acc') acc errors) =
   (if filter P errors = [] then fst ` set acc else insert fp (fst ` set acc))"
  by (induction errors arbitrary: acc) (auto simp: pushAt_def dom_update)

subsection \<open>The delta, path by path\<close>

lemma getErrors_Nil [simp]: "getErrorsForFilePath [] p = []"
  by (simp add: getErrorsForFilePath_def)

lemma missingFrom_Nil [simp]: "missingFrom [] es = es" "missingFrom os [] = []"
  by (simp_all add: missingFrom_def)

lemma diffPath_map_of:
  "map_of (diffPath other acc (fp, errors)) p =
   (if p = fp then
      (case map_of other fp of
         None \<Rightarrow> Some errors
       | Some oes \<Rightarrow>
           if missingFrom oes errors = [] then map_of acc fp
           else Some ((case map_of acc fp of None \<Rightarrow> [] | Some es \<Rightarrow> es) @ missingFrom oes errors))
    else map_of acc p)"
  by (simp add: diffPath_def pushLoop_map_of createMapByKey_None missingFrom_def update_conv'
           split: option.splits)

lemma diffPath_wf: "wf_store acc \<Longrightarrow> wf_store (diffPath other acc entry)"
  by (cases entry) (simp add: diffPath_def pushLoop_wf wf_update split: option.splits)

lemma diffPath_keys: "fst ` set (diffPath other acc entry) \<subseteq> insert (fst entry) (fst ` set acc)"
  by (cases entry) (auto simp: diffPath_def pushLoop_keys dom_update split: option.splits if_splits)

lemma diffLoop_wf: "wf_store acc \<Longrightarrow> wf_store (foldl (diffPath other) acc entries)"
  by (induction entries arbitrary: acc) (simp_all add: diffPath_wf)

lemma diffLoop_map_of:
  "distinct (map fst entries) \<Longrightarrow> fst ` set acc \<inter> fst ` set entries = {} \<Longrightarrow>
   map_of (foldl (diffPath other) acc entries) p =
   (case map_of entries p of
      None \<Rightarrow> map_of acc p
    | Some es \<Rightarrow>
        (case map_of other p of
           None \<Rightarrow> Some es
         | Some oes \<Rightarrow> if missingFrom oes es = [] then None else Some (missingFrom oes es)))"
proof (induction entries arbitrary: acc)
  case Nil
  show ?case by simp
next
  case (Cons entry entries)
  obtain fp es where entry: "entry = (fp, es)" by (cases entry)
  have fresh: "map_of acc fp = None"
    using Cons.prems(2) by (auto simp: entry map_of_eq_None_iff)
  have disj: "fst ` set (diffPath other acc entry) \<inter> fst ` set entries = {}"
  proof -
    have "fst ` set (diffPath other acc entry) \<subseteq> insert fp (fst ` set acc)"
      using diffPath_keys [of other acc entry] by (simp add: entry)
    moreover have "fp \<notin> fst ` set entries" "fst ` set acc \<inter> fst ` set entries = {}"
      using Cons.prems by (auto simp: entry)
    ultimately show ?thesis by blast
  qed
  have notin: "map_of entries fp = None"
    using Cons.prems(1) by (simp add: entry map_of_eq_None_iff)
  have dist: "distinct (map fst entries)"
    using Cons.prems(1) by simp
  have "map_of (foldl (diffPath other) acc (entry # entries)) p =
        (case map_of entries p of
           None \<Rightarrow> map_of (diffPath other acc (fp, es)) p
         | Some es' \<Rightarrow>
             (case map_of other p of
                None \<Rightarrow> Some es'
              | Some oes \<Rightarrow> if missingFrom oes es' = [] then None else Some (missingFrom oes es')))"
    using Cons.IH [OF dist disj] unfolding entry by simp
  then show ?case
    using notin fresh
    by (cases "p = fp") (simp_all add: entry diffPath_map_of split: option.splits)
qed

lemma computeDelta_added_map_of:
  assumes "wf_store B"
  shows "map_of (added (computeDelta A B)) p =
     (case map_of B p of
        None \<Rightarrow> None
      | Some es \<Rightarrow>
          (case map_of A p of
             None \<Rightarrow> Some es
           | Some oes \<Rightarrow> if missingFrom oes es = [] then None else Some (missingFrom oes es)))"
  using assms diffLoop_map_of [of B "[]" A p]
  by (simp add: computeDelta_def wf_store_def split: option.splits)

lemma computeDelta_removed_map_of:
  assumes "wf_store A"
  shows "map_of (removed (computeDelta A B)) p =
     (case map_of A p of
        None \<Rightarrow> None
      | Some es \<Rightarrow>
          (case map_of B p of
             None \<Rightarrow> Some es
           | Some oes \<Rightarrow> if missingFrom oes es = [] then None else Some (missingFrom oes es)))"
  using assms diffLoop_map_of [of A "[]" B p]
  by (simp add: computeDelta_def wf_store_def split: option.splits)

lemma computeDelta_wf:
  "wf_store (added (computeDelta A B))" "wf_store (removed (computeDelta A B))"
proof -
  have nil: "wf_store ([] :: 'a ErrorsByFilePath)"
    by (simp add: wf_store_def)
  show "wf_store (added (computeDelta A B))" "wf_store (removed (computeDelta A B))"
    by (simp_all add: computeDelta_def diffLoop_wf [OF nil])
qed

lemma computeDelta_added_errors:
  assumes "wf_store B"
  shows "getErrorsForFilePath (added (computeDelta A B)) p =
         missingFrom (getErrorsForFilePath A p) (getErrorsForFilePath B p)"
  by (simp add: getErrorsForFilePath_def computeDelta_added_map_of [OF assms] split: option.splits)

lemma computeDelta_removed_errors:
  assumes "wf_store A"
  shows "getErrorsForFilePath (removed (computeDelta A B)) p =
         missingFrom (getErrorsForFilePath B p) (getErrorsForFilePath A p)"
  by (simp add: getErrorsForFilePath_def computeDelta_removed_map_of [OF assms] split: option.splits)

lemma set_missingFrom:
  "errorKey ` set (missingFrom os es) = errorKey ` set es - errorKey ` set os"
  by (auto simp: missingFrom_def)

subsection \<open>The delta is the symmetric difference by identity key\<close>

text \<open>
  Claim C3. For two snapshots \<open>A\<close> (old) and \<open>B\<close> (new) and every file path \<open>p\<close>, with
  an absent path read as the empty list: the errors added at \<open>p\<close> are the errors of
  \<open>B\<close> at \<open>p\<close> whose identity key no error of \<open>A\<close> at \<open>p\<close> has, the errors removed at
  \<open>p\<close> are the errors of \<open>A\<close> at \<open>p\<close> whose identity key no error of \<open>B\<close> at \<open>p\<close>
  has; so the keys added are the keys of \<open>B\<close> that are not keys of \<open>A\<close>, the keys
  removed are the keys of \<open>A\<close> that are not keys of \<open>B\<close>, no key is both added and
  removed, and an error whose key both snapshots have at \<open>p\<close> is neither added nor
  removed.
\<close>

theorem delta_partition:
  assumes "wf_store A" and "wf_store B"
  shows "errorKey ` set (getErrorsForFilePath (added (computeDelta A B)) p)
           \<inter> errorKey ` set (getErrorsForFilePath (removed (computeDelta A B)) p) = {}
       \<and> getErrorsForFilePath (added (computeDelta A B)) p
           = filter (\<lambda>e. errorKey e \<notin> errorKey ` set (getErrorsForFilePath A p)) (getErrorsForFilePath B p)
       \<and> getErrorsForFilePath (removed (computeDelta A B)) p
           = filter (\<lambda>e. errorKey e \<notin> errorKey ` set (getErrorsForFilePath B p)) (getErrorsForFilePath A p)
       \<and> errorKey ` set (getErrorsForFilePath (added (computeDelta A B)) p)
           = errorKey ` set (getErrorsForFilePath B p) - errorKey ` set (getErrorsForFilePath A p)
       \<and> errorKey ` set (getErrorsForFilePath (removed (computeDelta A B)) p)
           = errorKey ` set (getErrorsForFilePath A p) - errorKey ` set (getErrorsForFilePath B p)"
proof -
  let ?a = "getErrorsForFilePath A p" and ?b = "getErrorsForFilePath B p"
  have ad: "getErrorsForFilePath (added (computeDelta A B)) p = missingFrom ?a ?b"
    by (rule computeDelta_added_errors [OF assms(2)])
  have re: "getErrorsForFilePath (removed (computeDelta A B)) p = missingFrom ?b ?a"
    by (rule computeDelta_removed_errors [OF assms(1)])
  have "(errorKey ` set ?b - errorKey ` set ?a) \<inter> (errorKey ` set ?a - errorKey ` set ?b) = {}"
    by blast
  then show ?thesis
    unfolding ad re set_missingFrom by (simp add: missingFrom_def)
qed

theorem delta_partition_witness:
  "wf_store scenarioStore \<and> wf_store scenarioStoreAfter
   \<and> errorKey ` set (getErrorsForFilePath (added (computeDelta scenarioStore scenarioStoreAfter)) ''a.ts'')
        \<inter> errorKey ` set (getErrorsForFilePath (removed (computeDelta scenarioStore scenarioStoreAfter)) ''a.ts'') = {}
   \<and> getErrorsForFilePath (added (computeDelta scenarioStore scenarioStoreAfter)) ''a.ts'' = [e3]
   \<and> getErrorsForFilePath (removed (computeDelta scenarioStore scenarioStoreAfter)) ''a.ts'' = [e1]"
proof -
  have a: "wf_store scenarioStore" and b: "wf_store scenarioStoreAfter"
    by code_simp+
  have f1: "filter (\<lambda>e. errorKey e \<notin> errorKey ` set (getErrorsForFilePath scenarioStore ''a.ts''))
              (getErrorsForFilePath scenarioStoreAfter ''a.ts'') = [e3]"
    by code_simp
  have f2: "filter (\<lambda>e. errorKey e \<notin> errorKey ` set (getErrorsForFilePath scenarioStoreAfter ''a.ts''))
              (getErrorsForFilePath scenarioStore ''a.ts'') = [e1]"
    by code_simp
  show ?thesis
    using a b delta_partition [OF a b, of "''a.ts''"] unfolding f1 f2 by blast
qed

subsection \<open>Which paths are keys of the delta\<close>

text \<open>
  Claim C2, as the code has it. A path that both snapshots have, or that neither has,
  and whose errors have the same identity keys in both, is a key of neither
  \<open>added\<close> nor \<open>removed\<close>. A key of \<open>added\<close> maps to the empty list exactly when
  the old snapshot does not have the path and the new one has it with the empty list;
  a key of \<open>removed\<close> maps to the empty list exactly when the new snapshot does not
  have the path and the old one has it with the empty list. (A path that only one
  snapshot has goes to the delta with its whole list.)
\<close>

theorem delta_keys_changed:
  assumes "wf_store A" and "wf_store B"
  shows "(errorKey ` set (getErrorsForFilePath A p) = errorKey ` set (getErrorsForFilePath B p)
            \<and> (map_of A p = None \<longleftrightarrow> map_of B p = None)
          \<longrightarrow> map_of (added (computeDelta A B)) p = None
              \<and> map_of (removed (computeDelta A B)) p = None)
       \<and> (map_of (added (computeDelta A B)) p = Some [] \<longleftrightarrow> map_of A p = None \<and> map_of B p = Some [])
       \<and> (map_of (removed (computeDelta A B)) p = Some [] \<longleftrightarrow> map_of B p = None \<and> map_of A p = Some [])"
proof -
  have eq: "missingFrom os es = []" if "errorKey ` set os = errorKey ` set es"
    for os es :: "'a CodeError list"
    using that by (auto simp: missingFrom_def filter_empty_conv)
  show ?thesis
    unfolding computeDelta_added_map_of [OF assms(2)] computeDelta_removed_map_of [OF assms(1)]
    by (auto simp: getErrorsForFilePath_def eq split: option.splits)
qed

text \<open>
  The claim as the spec states it fails: a path that the old snapshot does not have and
  the new one has with no error (the state after \<^verbatim>\<open>clearErrorsForFilePath\<close> on a
  fresh cache) has the same, empty, set of identity keys in both, and is a key of
  \<open>added\<close>, mapped to the empty list.
\<close>

theorem delta_empty_key_counterexample:
  "wf_store ([] :: string ErrorsByFilePath) \<and> wf_store [(''a.ts'', [] :: string CodeError list)]
   \<and> errorKey ` set (getErrorsForFilePath ([] :: string ErrorsByFilePath) ''a.ts'')
       = errorKey ` set (getErrorsForFilePath [(''a.ts'', [] :: string CodeError list)] ''a.ts'')
   \<and> map_of (added (computeDelta [] [(''a.ts'', [] :: string CodeError list)])) ''a.ts'' = Some []"
  by code_simp

theorem delta_keys_changed_witness:
  "wf_store scenarioStore \<and> wf_store scenarioStoreMoved
   \<and> errorKey ` set (getErrorsForFilePath scenarioStore ''a.ts'')
       = errorKey ` set (getErrorsForFilePath scenarioStoreMoved ''a.ts'')
   \<and> map_of scenarioStore ''a.ts'' \<noteq> None \<and> map_of scenarioStoreMoved ''a.ts'' \<noteq> None
   \<and> map_of (added (computeDelta scenarioStore scenarioStoreMoved)) ''a.ts'' = None
   \<and> map_of (removed (computeDelta scenarioStore scenarioStoreMoved)) ''a.ts'' = None"
proof -
  have a: "wf_store scenarioStore" and b: "wf_store scenarioStoreMoved"
    by code_simp+
  have k: "errorKey ` set (getErrorsForFilePath scenarioStore ''a.ts'')
             = errorKey ` set (getErrorsForFilePath scenarioStoreMoved ''a.ts'')"
    by code_simp
  have n: "map_of scenarioStore ''a.ts'' \<noteq> None" "map_of scenarioStoreMoved ''a.ts'' \<noteq> None"
    by code_simp+
  have i: "map_of scenarioStore ''a.ts'' = None \<longleftrightarrow> map_of scenarioStoreMoved ''a.ts'' = None"
    by code_simp
  note t = delta_keys_changed [OF a b, of "''a.ts''"]
  have c: "map_of (added (computeDelta scenarioStore scenarioStoreMoved)) ''a.ts'' = None
         \<and> map_of (removed (computeDelta scenarioStore scenarioStoreMoved)) ''a.ts'' = None"
    by (rule mp [OF conjunct1 [OF t]]) (rule conjI [OF k i])
  show ?thesis
    by (intro conjI a b k n conjunct1 [OF c] conjunct2 [OF c])
qed

subsection \<open>Applying a delta\<close>

lemma applyAddedLoop_map_of:
  "distinct (map fst entries) \<Longrightarrow>
   map_of (foldl (\<lambda>s entry.
              (case entry of (fp, addedErrors) \<Rightarrow>
                 (case map_of s fp of
                    None \<Rightarrow> AList.update fp addedErrors s
                  | Some es \<Rightarrow> AList.update fp (es @ addedErrors) s)))
           store entries) p =
   (case map_of entries p of
      None \<Rightarrow> map_of store p
    | Some l \<Rightarrow> Some (getErrorsForFilePath store p @ l))"
proof (induction entries arbitrary: store)
  case Nil
  show ?case by simp
next
  case (Cons entry entries)
  obtain fp l where entry: "entry = (fp, l)" by (cases entry)
  have dist: "distinct (map fst entries)" and notin: "map_of entries fp = None"
    using Cons.prems by (simp_all add: entry map_of_eq_None_iff)
  let ?step = "\<lambda>s entry.
              (case entry of (fp, addedErrors) \<Rightarrow>
                 (case map_of s fp of
                    None \<Rightarrow> AList.update fp addedErrors s
                  | Some es \<Rightarrow> AList.update fp (es @ addedErrors) s))"
  have "map_of (foldl ?step store (entry # entries)) p =
        map_of (foldl ?step (?step store (fp, l)) entries) p"
    by (simp add: entry)
  also have "\<dots> = (case map_of entries p of
                      None \<Rightarrow> map_of (?step store (fp, l)) p
                    | Some l' \<Rightarrow> Some (getErrorsForFilePath (?step store (fp, l)) p @ l'))"
    by (rule Cons.IH [OF dist])
  also have "\<dots> = (case map_of (entry # entries) p of
                      None \<Rightarrow> map_of store p
                    | Some l' \<Rightarrow> Some (getErrorsForFilePath store p @ l'))"
    using notin
    by (cases "p = fp")
       (simp_all add: entry update_conv' getErrorsForFilePath_def split: option.splits)
  finally show ?case .
qed

lemma applyAdded_map_of:
  "wf_store deltaAdded \<Longrightarrow>
   map_of (applyAdded deltaAdded store) p =
   (case map_of deltaAdded p of
      None \<Rightarrow> map_of store p
    | Some l \<Rightarrow> Some (getErrorsForFilePath store p @ l))"
  unfolding applyAdded_def wf_store_def by (rule applyAddedLoop_map_of)

lemma applyAdded_errors:
  "wf_store deltaAdded \<Longrightarrow>
   getErrorsForFilePath (applyAdded deltaAdded store) p =
   getErrorsForFilePath store p @ getErrorsForFilePath deltaAdded p"
  by (simp add: applyAdded_map_of getErrorsForFilePath_def split: option.splits)

lemma applyAdded_wf: "wf_store store \<Longrightarrow> wf_store (applyAdded deltaAdded store)"
  unfolding applyAdded_def
  by (induction deltaAdded arbitrary: store) (auto simp: wf_update split: option.splits)

lemma filter_by_map:
  "filter (\<lambda>e. map_of (createMapByKey removedErrors errorKey) (errorKey e) = None) es =
   missingFrom removedErrors es"
  by (simp add: createMapByKey_None missingFrom_def)

lemma applyRemovedLoop_map_of:
  "distinct (map fst entries) \<Longrightarrow>
   map_of (foldl (\<lambda>s entry.
              (case entry of (fp, removedErrors) \<Rightarrow>
                 AList.update fp (missingFrom removedErrors (getErrorsForFilePath s fp)) s))
           store entries) p =
   (case map_of entries p of
      None \<Rightarrow> map_of store p
    | Some rs \<Rightarrow> Some (missingFrom rs (getErrorsForFilePath store p)))"
proof (induction entries arbitrary: store)
  case Nil
  show ?case by simp
next
  case (Cons entry entries)
  obtain fp rs where entry: "entry = (fp, rs)" by (cases entry)
  have dist: "distinct (map fst entries)" and notin: "map_of entries fp = None"
    using Cons.prems by (simp_all add: entry map_of_eq_None_iff)
  let ?step = "\<lambda>s entry.
              (case entry of (fp, removedErrors) \<Rightarrow>
                 AList.update fp (missingFrom removedErrors (getErrorsForFilePath s fp)) s)"
  have "map_of (foldl ?step store (entry # entries)) p =
        map_of (foldl ?step (?step store (fp, rs)) entries) p"
    by (simp add: entry)
  also have "\<dots> = (case map_of entries p of
                      None \<Rightarrow> map_of (?step store (fp, rs)) p
                    | Some rs' \<Rightarrow> Some (missingFrom rs' (getErrorsForFilePath (?step store (fp, rs)) p)))"
    by (rule Cons.IH [OF dist])
  also have "\<dots> = (case map_of (entry # entries) p of
                      None \<Rightarrow> map_of store p
                    | Some rs' \<Rightarrow> Some (missingFrom rs' (getErrorsForFilePath store p)))"
    using notin
    by (cases "p = fp")
       (simp_all add: entry update_conv' getErrorsForFilePath_def split: option.splits)
  finally show ?case .
qed

lemma applyRemoved_alt:
  "applyRemoved deltaRemoved store =
   foldl (\<lambda>s entry.
              (case entry of (fp, removedErrors) \<Rightarrow>
                 AList.update fp (missingFrom removedErrors (getErrorsForFilePath s fp)) s))
         store deltaRemoved"
  by (simp add: applyRemoved_def filter_by_map getErrorsForFilePath_def)

lemma applyRemoved_map_of:
  "wf_store deltaRemoved \<Longrightarrow>
   map_of (applyRemoved deltaRemoved store) p =
   (case map_of deltaRemoved p of
      None \<Rightarrow> map_of store p
    | Some rs \<Rightarrow> Some (missingFrom rs (getErrorsForFilePath store p)))"
  unfolding applyRemoved_alt wf_store_def by (rule applyRemovedLoop_map_of)

lemma applyRemoved_errors:
  "wf_store deltaRemoved \<Longrightarrow>
   getErrorsForFilePath (applyRemoved deltaRemoved store) p =
   missingFrom (getErrorsForFilePath deltaRemoved p) (getErrorsForFilePath store p)"
  by (simp add: applyRemoved_map_of getErrorsForFilePath_def split: option.splits)

lemma applyRemoved_wf: "wf_store store \<Longrightarrow> wf_store (applyRemoved deltaRemoved store)"
  unfolding applyRemoved_alt
  by (induction deltaRemoved arbitrary: store) (auto simp: wf_update)

lemma identityKeys_errors:
  assumes "wf_store store"
  shows "identityKeys store = {(p, k). k \<in> errorKey ` set (getErrorsForFilePath store p)}"
proof -
  have mem: "(p, es) \<in> set store \<longleftrightarrow> map_of store p = Some es" for p es
    using assms by (simp add: wf_store_def)
  show ?thesis
  proof (rule set_eqI, clarify)
    fix p k
    have "(p, k) \<in> identityKeys store \<longleftrightarrow> (\<exists>es. (p, es) \<in> set store \<and> k \<in> errorKey ` set es)"
      by (force simp: identityKeys_def)
    also have "\<dots> \<longleftrightarrow> k \<in> errorKey ` set (getErrorsForFilePath store p)"
      by (cases "map_of store p") (simp_all add: mem getErrorsForFilePath_def)
    finally show "(p, k) \<in> identityKeys store
        \<longleftrightarrow> (p, k) \<in> {(p, k). k \<in> errorKey ` set (getErrorsForFilePath store p)}"
      by simp
  qed
qed

lemma roundtrip_errors:
  assumes "wf_store A" and "wf_store B"
  shows "errorKey ` set (getErrorsForFilePath (applyDeltaStore A (computeDelta A B)) p) =
         errorKey ` set (getErrorsForFilePath B p)"
proof -
  let ?a = "getErrorsForFilePath A p" and ?b = "getErrorsForFilePath B p"
  have "getErrorsForFilePath (applyDeltaStore A (computeDelta A B)) p =
        missingFrom (missingFrom ?b ?a) (?a @ missingFrom ?a ?b)"
    by (simp add: applyDeltaStore_def applyRemoved_errors applyAdded_errors computeDelta_wf
          computeDelta_added_errors [OF assms(2)] computeDelta_removed_errors [OF assms(1)])
  then have "errorKey ` set (getErrorsForFilePath (applyDeltaStore A (computeDelta A B)) p) =
        (errorKey ` set ?a \<union> (errorKey ` set ?b - errorKey ` set ?a))
          - (errorKey ` set ?a - errorKey ` set ?b)"
    by (simp add: set_missingFrom image_Un)
  also have "\<dots> = errorKey ` set ?b"
    by blast
  finally show ?thesis .
qed

lemma applyDeltaStore_wf: "wf_store store \<Longrightarrow> wf_store (applyDeltaStore store delta)"
  by (simp add: applyDeltaStore_def applyRemoved_wf applyAdded_wf)

text \<open>
  Claim C1. For a cache whose dictionary is \<open>A\<close> and any snapshot \<open>B\<close>, applying the
  delta computed from \<open>A\<close> to \<open>B\<close> leaves a dictionary that holds the same pairs of
  file path and identity key as \<open>B\<close>.
\<close>

theorem diff_apply_roundtrip:
  assumes "wf_store (this_errorsByFilePath this)" and "wf_store B"
  shows "identityKeys (this_errorsByFilePath (applyDelta (computeDelta (this_errorsByFilePath this) B) this))
         = identityKeys B"
proof -
  let ?A = "this_errorsByFilePath this"
  have st: "this_errorsByFilePath (applyDelta (computeDelta ?A B) this) = applyDeltaStore ?A (computeDelta ?A B)"
    by (simp add: applyDelta_def sendErrors_def)
  show ?thesis
    unfolding st
    by (simp add: identityKeys_errors applyDeltaStore_wf assms roundtrip_errors)
qed

theorem diff_apply_roundtrip_witness:
  "wf_store (this_errorsByFilePath scenarioCache) \<and> wf_store scenarioStoreMoved
   \<and> identityKeys (this_errorsByFilePath
         (applyDelta (computeDelta (this_errorsByFilePath scenarioCache) scenarioStoreMoved) scenarioCache))
       = identityKeys scenarioStoreMoved
   \<and> this_errorsByFilePath
         (applyDelta (computeDelta (this_errorsByFilePath scenarioCache) scenarioStoreMoved) scenarioCache)
       \<noteq> scenarioStoreMoved"
proof -
  have a: "wf_store (this_errorsByFilePath scenarioCache)" and b: "wf_store scenarioStoreMoved"
    by code_simp+
  have c: "this_errorsByFilePath
         (applyDelta (computeDelta (this_errorsByFilePath scenarioCache) scenarioStoreMoved) scenarioCache)
       \<noteq> scenarioStoreMoved"
    by code_simp
  show ?thesis
    by (intro conjI a b c diff_apply_roundtrip [OF a b])
qed

subsection \<open>The identity key\<close>

lemma of_char_digit_char: "d < 10 \<Longrightarrow> (of_char (digit_char d) :: nat) = 48 + d"
  by (simp add: digit_char_def)

lemma show_nat_chars:
  "c \<in> set (show_nat n) \<Longrightarrow> 48 \<le> (of_char c :: nat) \<and> (of_char c :: nat) < 58"
proof (induction n arbitrary: c rule: show_nat.induct)
  case (1 n)
  show ?case
  proof (cases "n < 10")
    case True
    with "1.prems" have "c = digit_char n"
      by (subst (asm) show_nat.simps) simp
    with True show ?thesis
      by (simp add: of_char_digit_char)
  next
    case False
    with "1.prems" have "c \<in> set (show_nat (n div 10)) \<or> c = digit_char (n mod 10)"
      by (subst (asm) show_nat.simps) auto
    then show ?thesis
      using "1.IH" [OF False] by (auto simp: of_char_digit_char)
  qed
qed

lemma show_nat_nonempty: "show_nat n \<noteq> []"
  by (subst show_nat.simps) simp

lemma show_nat_read:
  "foldl (\<lambda>a c. 10 * a + (of_char c - 48)) 0 (show_nat n) = n"
proof (induction n rule: show_nat.induct)
  case (1 n)
  show ?case
  proof (cases "n < 10")
    case True
    then show ?thesis
      by (subst show_nat.simps) (simp add: of_char_digit_char)
  next
    case False
    then show ?thesis
      using "1.IH" [OF False]
      by (subst show_nat.simps) (simp add: of_char_digit_char)
  qed
qed

lemma show_nat_inject: "show_nat m = show_nat n \<longleftrightarrow> m = n"
  by (metis show_nat_read)

lemma show_nat_no_colon: "CHR '':'' \<notin> set (show_nat n)"
  using show_nat_chars [of "CHR '':''" n] by auto

lemma show_nat_no_minus: "CHR ''-'' \<notin> set (show_nat n)"
  using show_nat_chars [of "CHR ''-''" n] by auto

lemma show_int_no_colon: "CHR '':'' \<notin> set (show_int i)"
  by (simp add: show_int_def show_nat_no_colon)

lemma show_int_inject: "show_int i = show_int j \<longleftrightarrow> i = j"
proof -
  have neg: "CHR ''-'' # show_nat m \<noteq> show_nat n" for m n
    using show_nat_no_minus [of n] by (metis list.set_intros(1))
  show ?thesis
    using neg neg [symmetric]
    by (auto simp: show_int_def show_nat_inject)
qed

lemma split_at_colon:
  "CHR '':'' \<notin> set a \<Longrightarrow> CHR '':'' \<notin> set a' \<Longrightarrow>
   a @ CHR '':'' # r = a' @ CHR '':'' # r' \<Longrightarrow> a = a' \<and> r = r'"
proof (induction a arbitrary: a')
  case Nil
  then show ?case by (cases a') auto
next
  case (Cons x a)
  then show ?case by (cases a') auto
qed

lemma errorKey_eq_iff:
  "errorKey x = errorKey y \<longleftrightarrow>
   line (from_pos x) = line (from_pos y) \<and> ch (from_pos x) = ch (from_pos y) \<and> message x = message y"
proof
  assume eq: "errorKey x = errorKey y"
  have 1: "show_int (line (from_pos x)) = show_int (line (from_pos y))
     \<and> show_int (ch (from_pos x)) @ CHR '':'' # message x = show_int (ch (from_pos y)) @ CHR '':'' # message y"
    using eq by (intro split_at_colon) (simp_all add: errorKey_def show_int_no_colon)
  then have 2: "show_int (ch (from_pos x)) = show_int (ch (from_pos y)) \<and> message x = message y"
    by (intro split_at_colon) (simp_all add: show_int_no_colon)
  show "line (from_pos x) = line (from_pos y) \<and> ch (from_pos x) = ch (from_pos y) \<and> message x = message y"
    using 1 2 by (simp add: show_int_inject)
next
  assume "line (from_pos x) = line (from_pos y) \<and> ch (from_pos x) = ch (from_pos y) \<and> message x = message y"
  then show "errorKey x = errorKey y"
    by (simp add: errorKey_def)
qed

text \<open>
  Claim C5. The identity key is the triple of \<^verbatim>\<open>from.line\<close>, \<^verbatim>\<open>from.ch\<close> and
  \<^verbatim>\<open>message\<close>: two diagnostics have the same key exactly when they agree on the
  three. So when the old snapshot has \<open>x\<close> and the new one has \<open>y\<close> at the same path,
  and the two agree on the three fields (whatever their \<^verbatim>\<open>to\<close> position and
  payload), the delta has no error with their key at that path: \<open>y\<close> is not added and
  \<open>x\<close> is not removed.
\<close>

theorem identity_key_is_from_and_message:
  assumes "wf_store A" and "wf_store B"
    and "x \<in> set (getErrorsForFilePath A p)" and "y \<in> set (getErrorsForFilePath B p)"
    and "line (from_pos x) = line (from_pos y)" and "ch (from_pos x) = ch (from_pos y)"
    and "message x = message y"
  shows "(\<forall>u v :: 'a CodeError.
            errorKey u = errorKey v \<longleftrightarrow>
              line (from_pos u) = line (from_pos v) \<and> ch (from_pos u) = ch (from_pos v)
              \<and> message u = message v)
       \<and> errorKey x = errorKey y
       \<and> errorKey y \<notin> errorKey ` set (getErrorsForFilePath (added (computeDelta A B)) p)
       \<and> errorKey x \<notin> errorKey ` set (getErrorsForFilePath (removed (computeDelta A B)) p)
       \<and> y \<notin> set (getErrorsForFilePath (added (computeDelta A B)) p)
       \<and> x \<notin> set (getErrorsForFilePath (removed (computeDelta A B)) p)"
proof -
  have k: "errorKey x = errorKey y"
    using assms(5-7) by (simp add: errorKey_eq_iff)
  have inA: "errorKey y \<in> errorKey ` set (getErrorsForFilePath A p)"
    using assms(3) k by (metis imageI)
  have inB: "errorKey x \<in> errorKey ` set (getErrorsForFilePath B p)"
    using assms(4) k by (metis imageI)
  have ad: "errorKey y \<notin> errorKey ` set (getErrorsForFilePath (added (computeDelta A B)) p)"
    using inA by (simp add: computeDelta_added_errors [OF assms(2)] set_missingFrom)
  have re: "errorKey x \<notin> errorKey ` set (getErrorsForFilePath (removed (computeDelta A B)) p)"
    using inB by (simp add: computeDelta_removed_errors [OF assms(1)] set_missingFrom)
  show ?thesis
    using k ad re by (auto simp: errorKey_eq_iff)
qed

theorem identity_key_is_from_and_message_witness:
  "wf_store scenarioStore \<and> wf_store scenarioStoreMoved
   \<and> e1 \<in> set (getErrorsForFilePath scenarioStore ''a.ts'')
   \<and> e1_moved \<in> set (getErrorsForFilePath scenarioStoreMoved ''a.ts'')
   \<and> line (from_pos e1) = line (from_pos e1_moved) \<and> ch (from_pos e1) = ch (from_pos e1_moved)
   \<and> message e1 = message e1_moved
   \<and> to_pos e1 \<noteq> to_pos e1_moved \<and> payload e1 \<noteq> payload e1_moved
   \<and> errorKey e1 = errorKey e1_moved
   \<and> e1_moved \<notin> set (getErrorsForFilePath (added (computeDelta scenarioStore scenarioStoreMoved)) ''a.ts'')
   \<and> e1 \<notin> set (getErrorsForFilePath (removed (computeDelta scenarioStore scenarioStoreMoved)) ''a.ts'')"
proof -
  have a: "wf_store scenarioStore" and b: "wf_store scenarioStoreMoved"
    by code_simp+
  have x: "e1 \<in> set (getErrorsForFilePath scenarioStore ''a.ts'')"
    and y: "e1_moved \<in> set (getErrorsForFilePath scenarioStoreMoved ''a.ts'')"
    by code_simp+
  have l: "line (from_pos e1) = line (from_pos e1_moved)"
    and c: "ch (from_pos e1) = ch (from_pos e1_moved)"
    and m: "message e1 = message e1_moved"
    by code_simp+
  have d: "to_pos e1 \<noteq> to_pos e1_moved" "payload e1 \<noteq> payload e1_moved"
    by code_simp+
  note t = identity_key_is_from_and_message [OF a b x y l c m]
  note t2 = t [THEN conjunct2]
  note t5 = t2 [THEN conjunct2, THEN conjunct2, THEN conjunct2]
  show ?thesis
    by (intro conjI a b x y l c m d t2 [THEN conjunct1] t5 [THEN conjunct1] t5 [THEN conjunct2])
qed

subsection \<open>The scenario of the spec\<close>

text \<open>
  Claim C4. The dictionary and the baseline sent last are
  \<^verbatim>\<open>{a.ts: [x1], b.ts: [x2]}\<close> with \<open>x1\<close> at (1,2) saying \<^verbatim>\<open>msg1\<close> and \<open>x2\<close> at
  (3,4) saying \<^verbatim>\<open>msg2\<close>; \<open>x3\<close> is a diagnostic of \<^verbatim>\<open>a.ts\<close> at (1,2) saying
  \<^verbatim>\<open>msg1-changed\<close>. After \<^verbatim>\<open>setErrorsByFilePaths(["a.ts","b.ts"], [x3])\<close> the
  dictionary is \<^verbatim>\<open>{a.ts: [x3], b.ts: []}\<close>, an emission is scheduled, and the delta it
  emits is \<^verbatim>\<open>added = {a.ts: [x3]}\<close>, \<^verbatim>\<open>removed = {a.ts: [x1], b.ts: [x2]}\<close>.
\<close>

theorem scenario_replace_and_clear:
  assumes "filePath x1 = ''a.ts''" and "line (from_pos x1) = 1" and "ch (from_pos x1) = 2"
    and "message x1 = ''msg1''"
    and "filePath x2 = ''b.ts''" and "line (from_pos x2) = 3" and "ch (from_pos x2) = 4"
    and "message x2 = ''msg2''"
    and "filePath x3 = ''a.ts''" and "line (from_pos x3) = 1" and "ch (from_pos x3) = 2"
    and "message x3 = ''msg1-changed''"
    and "this_errorsByFilePath this = [(''a.ts'', [x1]), (''b.ts'', [x2])]"
    and "lastErrorsByFilePath this = [(''a.ts'', [x1]), (''b.ts'', [x2])]"
  shows "this_errorsByFilePath (setErrorsByFilePaths [''a.ts'', ''b.ts''] [x3] this)
           = [(''a.ts'', [x3]), (''b.ts'', [])]
       \<and> sendErrorsPending (setErrorsByFilePaths [''a.ts'', ''b.ts''] [x3] this)
       \<and> map_option snd (fst (sendErrorsFire (setErrorsByFilePaths [''a.ts'', ''b.ts''] [x3] this)))
           = Some \<lparr> added = [(''a.ts'', [x3])], removed = [(''a.ts'', [x1]), (''b.ts'', [x2])] \<rparr>"
proof -
  have ne: "x1 \<noteq> x3"
    using assms(4,12) by auto
  have k13: "errorKey x3 \<noteq> errorKey x1" "errorKey x1 \<noteq> errorKey x3"
    using assms(4,12) by (simp_all add: errorKey_eq_iff)
  have loops: "setErrorsLoops [''a.ts'', ''b.ts''] [x3] (this_errorsByFilePath this)
               = (True, [(''a.ts'', [x3]), (''b.ts'', [])])"
    using ne by (simp add: setErrorsLoops_def createMapByKey_def setFound_def clearNotFound_def assms)
  have delta: "computeDelta [(''a.ts'', [x1]), (''b.ts'', [x2])] [(''a.ts'', [x3]), (''b.ts'', [])]
               = \<lparr> added = [(''a.ts'', [x3])], removed = [(''a.ts'', [x1]), (''b.ts'', [x2])] \<rparr>"
    using k13 by (simp add: computeDelta_def diffPath_def createMapByKey_def pushAt_def)
  show ?thesis
    by (simp add: setErrorsByFilePaths_def loops sendErrors_def sendErrorsFire_def delta assms(14))
qed

theorem scenario_replace_and_clear_witness:
  "this_errorsByFilePath (setErrorsByFilePaths [''a.ts'', ''b.ts''] [e3] scenarioCache)
           = [(''a.ts'', [e3]), (''b.ts'', [])]
   \<and> sendErrorsPending (setErrorsByFilePaths [''a.ts'', ''b.ts''] [e3] scenarioCache)
   \<and> map_option snd (fst (sendErrorsFire (setErrorsByFilePaths [''a.ts'', ''b.ts''] [e3] scenarioCache)))
           = Some \<lparr> added = [(''a.ts'', [e3])], removed = [(''a.ts'', [e1]), (''b.ts'', [e2])] \<rparr>"
  by (rule scenario_replace_and_clear)
     (simp_all add: e1_def e2_def e3_def diag_def scenarioCache_def scenarioStore_def)

subsection \<open>The limited view\<close>

lemma update_fresh: "k \<notin> fst ` set al \<Longrightarrow> AList.update k v al = al @ [(k, v)]"
  by (induction al) auto

lemma foldl_add_sum: "foldl (\<lambda>acc i. acc + i) (a :: nat) xs = a + sum_list xs"
  by (induction xs arbitrary: a) simp_all

lemma limitLoop_prefix:
  "distinct (map fst (limitedCopy @ store)) \<Longrightarrow> t \<le> 200 \<Longrightarrow>
   \<exists>k \<le> length store.
      limitLoop store (limitedCopy, t) =
        (limitedCopy @ map (\<lambda>(fp, es). (fp, take 50 es)) (take k store),
         t + sum_list (map (\<lambda>(fp, es). min 50 (length es)) (take k store)))
    \<and> (\<forall>j < k. t + sum_list (map (\<lambda>(fp, es). min 50 (length es)) (take j store)) \<le> 200)
    \<and> (k < length store \<longrightarrow> 200 < t + sum_list (map (\<lambda>(fp, es). min 50 (length es)) (take k store)))"
proof (induction store arbitrary: limitedCopy t)
  case Nil
  show ?case by simp
next
  case (Cons entry store)
  obtain fp es where entry: "entry = (fp, es)" by (cases entry)
  let ?errors = "if length es > 50 then take 50 es else es"
  have cap: "?errors = take 50 es" and len: "length ?errors = min 50 (length es)"
    by simp_all
  have fresh: "fp \<notin> fst ` set limitedCopy"
    using Cons.prems(1) by (auto simp: entry)
  have upd: "AList.update fp ?errors limitedCopy = limitedCopy @ [(fp, take 50 es)]"
    using update_fresh [OF fresh] cap by simp
  show ?case
  proof (cases "200 < t + min 50 (length es)")
    case True
    have "limitLoop (entry # store) (limitedCopy, t) =
          (limitedCopy @ [(fp, take 50 es)], t + min 50 (length es))"
      using True upd len by (simp add: entry Let_def)
    then show ?thesis
      using True Cons.prems(2)
      by (intro exI [of _ 1]) (simp add: entry less_Suc_eq)
  next
    case False
    have step: "limitLoop ((fp, es) # store) (limitedCopy, t) =
          limitLoop store (limitedCopy @ [(fp, take 50 es)], t + min 50 (length es))"
      using False upd len by (simp add: Let_def)
    have dist: "distinct (map fst ((limitedCopy @ [(fp, take 50 es)]) @ store))"
      using Cons.prems(1) by (simp add: entry)
    have le: "t + min 50 (length es) \<le> 200"
      using False by simp
    obtain k where k: "k \<le> length store"
      and res: "limitLoop store (limitedCopy @ [(fp, take 50 es)], t + min 50 (length es)) =
        ((limitedCopy @ [(fp, take 50 es)]) @ map (\<lambda>(fp, es). (fp, take 50 es)) (take k store),
         t + min 50 (length es) + sum_list (map (\<lambda>(fp, es). min 50 (length es)) (take k store)))"
      and below: "\<forall>j < k. t + min 50 (length es)
                     + sum_list (map (\<lambda>(fp, es). min 50 (length es)) (take j store)) \<le> 200"
      and above: "k < length store \<longrightarrow>
                    200 < t + min 50 (length es)
                     + sum_list (map (\<lambda>(fp, es). min 50 (length es)) (take k store))"
      using Cons.IH [OF dist le] by blast
    have below': "t + sum_list (map (\<lambda>(fp, es). min 50 (length es)) (take j (entry # store))) \<le> 200"
      if "j < Suc k" for j
    proof (cases j)
      case 0
      then show ?thesis using Cons.prems(2) by simp
    next
      case (Suc j')
      then show ?thesis using below that by (simp add: entry add.assoc)
    qed
    show ?thesis
      using k res above below'
      by (intro exI [of _ "Suc k"]) (simp add: step entry add.assoc del: limitLoop.simps)
  qed
qed

lemma limitLoop_le:
  "snd (limitLoop store (limitedCopy, t)) \<le> t + sum_list (map (\<lambda>x. length (snd x)) store)"
proof (induction store arbitrary: limitedCopy t)
  case Nil
  show ?case by simp
next
  case (Cons entry store)
  obtain fp es where entry: "entry = (fp, es)" by (cases entry)
  show ?case
    using Cons.IH [of "AList.update fp (take 50 es) limitedCopy" "t + 50"]
          Cons.IH [of "AList.update fp es limitedCopy" "t + length es"]
    by (auto simp: entry Let_def)
qed

lemma getErrorsLimited_prefix:
  assumes "wf_store store"
  shows "\<exists>k \<le> length store.
      errorsByFilePath (getErrorsLimited store) = map (\<lambda>(fp, es). (fp, take 50 es)) (take k store)
    \<and> syncCount (getErrorsLimited store) = sum_list (map (\<lambda>(fp, es). min 50 (length es)) (take k store))
    \<and> (\<forall>j < k. sum_list (map (\<lambda>(fp, es). min 50 (length es)) (take j store)) \<le> 200)
    \<and> (k < length store \<longrightarrow> 200 < sum_list (map (\<lambda>(fp, es). min 50 (length es)) (take k store)))"
proof -
  have "distinct (map fst ([] @ store))"
    using assms by (simp add: wf_store_def)
  from limitLoop_prefix [OF this, of 0] show ?thesis
    by (auto simp: getErrorsLimited_def Let_def)
qed

lemma capped_lengths:
  "sum_list (map (\<lambda>(fp, es). length es) (map (\<lambda>(fp, es). (fp, take 50 es)) xs)) =
   sum_list (map (\<lambda>(fp, es). min 50 (length es)) xs)"
  by (induction xs) (auto simp: min_def)

text \<open>
  Claim C6. The limited view holds the first \<open>k\<close> entries of the dictionary, in its
  order, each list cut to its first 50 errors, for some \<open>k\<close>: every entry that is
  included was reached with at most 200 errors included before it, and entries are
  left out only once more than 200 errors are included (so the entry that crosses 200
  is itself included). Hence no list of the view has more than 50 errors and its paths
  are a prefix of the paths of the dictionary.
\<close>

theorem limited_is_capped_prefix:
  assumes "wf_store store"
  shows "\<exists>k \<le> length store.
      errorsByFilePath (getErrorsLimited store) = map (\<lambda>(fp, es). (fp, take 50 es)) (take k store)
    \<and> map fst (errorsByFilePath (getErrorsLimited store)) = take k (map fst store)
    \<and> (\<forall>j < k. sum_list (map (\<lambda>(fp, es). min 50 (length es)) (take j store)) \<le> 200)
    \<and> (k < length store \<longrightarrow> 200 < sum_list (map (\<lambda>(fp, es). min 50 (length es)) (take k store)))
    \<and> (\<forall>(fp, es) \<in> set (errorsByFilePath (getErrorsLimited store)). length es \<le> 50)"
proof -
  obtain k where k: "k \<le> length store"
    and view: "errorsByFilePath (getErrorsLimited store) = map (\<lambda>(fp, es). (fp, take 50 es)) (take k store)"
    and below: "\<forall>j < k. sum_list (map (\<lambda>(fp, es). min 50 (length es)) (take j store)) \<le> 200"
    and above: "k < length store \<longrightarrow> 200 < sum_list (map (\<lambda>(fp, es). min 50 (length es)) (take k store))"
    using getErrorsLimited_prefix [OF assms] by blast
  have paths: "map fst (errorsByFilePath (getErrorsLimited store)) = take k (map fst store)"
    unfolding view by (simp add: take_map case_prod_unfold comp_def)
  have short: "\<forall>(fp, es) \<in> set (errorsByFilePath (getErrorsLimited store)). length es \<le> 50"
    unfolding view by auto
  show ?thesis
    using k view paths below above short by blast
qed

theorem limited_is_capped_prefix_witness:
  "wf_store bigStore
   \<and> map fst (errorsByFilePath (getErrorsLimited bigStore)) = [''f0.ts'', ''f1.ts'', ''f2.ts'', ''f3.ts'', ''f4.ts'']
   \<and> (\<exists>k \<le> length bigStore.
      errorsByFilePath (getErrorsLimited bigStore) = map (\<lambda>(fp, es). (fp, take 50 es)) (take k bigStore)
    \<and> map fst (errorsByFilePath (getErrorsLimited bigStore)) = take k (map fst bigStore)
    \<and> (\<forall>j < k. sum_list (map (\<lambda>(fp, es). min 50 (length es)) (take j bigStore)) \<le> 200)
    \<and> (k < length bigStore \<longrightarrow> 200 < sum_list (map (\<lambda>(fp, es). min 50 (length es)) (take k bigStore)))
    \<and> (\<forall>(fp, es) \<in> set (errorsByFilePath (getErrorsLimited bigStore)). length es \<le> 50))"
proof -
  have a: "wf_store bigStore"
    by code_simp
  have b: "map fst (errorsByFilePath (getErrorsLimited bigStore))
           = [''f0.ts'', ''f1.ts'', ''f2.ts'', ''f3.ts'', ''f4.ts'']"
    by code_simp
  show ?thesis
    by (intro conjI a b limited_is_capped_prefix [OF a])
qed

text \<open>
  Claim C7. In the limited view \<^verbatim>\<open>totalCount\<close> is the number of errors of the whole
  dictionary, \<^verbatim>\<open>syncCount\<close> is at most \<^verbatim>\<open>totalCount\<close> and is the number of errors
  that the view holds, and \<^verbatim>\<open>tooMany\<close> says that the two counts differ.
\<close>

theorem limited_counts:
  "totalCount (getErrorsLimited store) = sum_list (map (\<lambda>(fp, es). length es) store)
   \<and> syncCount (getErrorsLimited store) \<le> totalCount (getErrorsLimited store)
   \<and> (tooMany (getErrorsLimited store)
        \<longleftrightarrow> syncCount (getErrorsLimited store) \<noteq> totalCount (getErrorsLimited store))
   \<and> (wf_store store \<longrightarrow>
        syncCount (getErrorsLimited store)
          = sum_list (map (\<lambda>(fp, es). length es) (errorsByFilePath (getErrorsLimited store))))"
proof -
  have tc: "totalCount (getErrorsLimited store) = sum_list (map (\<lambda>x. length (snd x)) store)"
    by (simp add: getErrorsLimited_def Let_def foldl_add_sum split: prod.splits)
  have sc: "syncCount (getErrorsLimited store) = snd (limitLoop store ([], 0))"
    by (simp add: getErrorsLimited_def Let_def split: prod.splits)
  have le: "syncCount (getErrorsLimited store) \<le> totalCount (getErrorsLimited store)"
    unfolding tc sc using limitLoop_le [of store "[]" 0] by simp
  have tm: "tooMany (getErrorsLimited store)
        \<longleftrightarrow> syncCount (getErrorsLimited store) \<noteq> totalCount (getErrorsLimited store)"
    by (simp add: getErrorsLimited_def Let_def split: prod.splits)
  have held: "syncCount (getErrorsLimited store)
          = sum_list (map (\<lambda>(fp, es). length es) (errorsByFilePath (getErrorsLimited store)))"
    if w: "wf_store store"
  proof -
    obtain k where
      view: "errorsByFilePath (getErrorsLimited store) = map (\<lambda>(fp, es). (fp, take 50 es)) (take k store)"
      and sync: "syncCount (getErrorsLimited store)
                 = sum_list (map (\<lambda>(fp, es). min 50 (length es)) (take k store))"
      using getErrorsLimited_prefix [OF w] by blast
    show ?thesis
      unfolding view sync capped_lengths ..
  qed
  show ?thesis
    using tc le tm held by (simp add: case_prod_unfold)
qed

theorem limited_counts_witness:
  "wf_store bigStore
   \<and> totalCount (getErrorsLimited bigStore) = 310
   \<and> syncCount (getErrorsLimited bigStore) = 250
   \<and> tooMany (getErrorsLimited bigStore)
   \<and> syncCount (getErrorsLimited bigStore) \<le> totalCount (getErrorsLimited bigStore)
   \<and> syncCount (getErrorsLimited bigStore)
          = sum_list (map (\<lambda>(fp, es). length es) (errorsByFilePath (getErrorsLimited bigStore)))"
proof -
  have a: "wf_store bigStore"
    by code_simp
  have t: "totalCount (getErrorsLimited bigStore) = 310"
    and s: "syncCount (getErrorsLimited bigStore) = 250"
    and m: "tooMany (getErrorsLimited bigStore)"
    by code_simp+
  note c = limited_counts [of bigStore]
  note c2 = c [THEN conjunct2]
  show ?thesis
    by (intro conjI a t s m c2 [THEN conjunct1]
          mp [OF c2 [THEN conjunct2, THEN conjunct2] a])
qed

subsection \<open>\<^verbatim>\<open>setErrorsByFilePaths\<close>\<close>

lemma createMapByKey_entry:
  assumes "(k, g) \<in> set (createMapByKey arr getKey)"
  shows "k \<in> getKey ` set arr \<and> g = filter (\<lambda>x. getKey x = k) arr"
proof -
  have "map_of (createMapByKey arr getKey) k = Some g"
    using assms wf_createMapByKey [of arr getKey] by (simp add: wf_store_def)
  then show ?thesis
    by (simp add: map_of_createMapByKey split: if_splits)
qed

lemma createMapByKey_keys: "fst ` set (createMapByKey arr getKey) = getKey ` set arr"
proof -
  have "k \<in> fst ` set (createMapByKey arr getKey) \<longleftrightarrow> k \<in> getKey ` set arr" for k
    using createMapByKey_None [of arr getKey k] by (simp add: map_of_eq_None_iff)
  then show ?thesis by blast
qed

lemma setFound_same:
  "\<forall>(fp, g) \<in> set errorsByFile. map_of store fp = Some g \<Longrightarrow>
   setFound errorsByFile (somethingNew, store) = (somethingNew, store)"
  unfolding setFound_def
  by (induction errorsByFile) auto

lemma clearNotFound_same:
  "\<forall>fp \<in> set filePaths. map_of errorsByFile fp = None \<longrightarrow> getErrorsForFilePath store fp = [] \<Longrightarrow>
   clearNotFound errorsByFile filePaths (somethingNew, store) = (somethingNew, store)"
  unfolding clearNotFound_def
  by (induction filePaths) (auto simp: getErrorsForFilePath_def split: option.splits)

text \<open>
  Claim C8. When, for every path that has an error in the batch, the dictionary holds
  exactly the errors of the batch with that path, in the order of the batch, and every
  path listed in \<^verbatim>\<open>filePaths\<close> without an error in the batch is absent from the
  dictionary or has the empty list, then \<^verbatim>\<open>setErrorsByFilePaths\<close> leaves the
  dictionary as it is with \<^verbatim>\<open>somethingNew\<close> false, and the cache is unchanged: it
  schedules no emission, so that no snapshot and no delta is emitted unless an emission
  was already pending.
\<close>

theorem setErrors_noop:
  assumes "\<forall>fp \<in> filePath ` set errors.
             map_of (this_errorsByFilePath this) fp = Some (filter (\<lambda>e. filePath e = fp) errors)"
    and "\<forall>fp \<in> set filePaths.
             fp \<notin> filePath ` set errors \<longrightarrow> getErrorsForFilePath (this_errorsByFilePath this) fp = []"
  shows "setErrorsLoops filePaths errors (this_errorsByFilePath this) = (False, this_errorsByFilePath this)
       \<and> setErrorsByFilePaths filePaths errors this = this
       \<and> (\<not> sendErrorsPending this \<longrightarrow>
             fst (sendErrorsFire (setErrorsByFilePaths filePaths errors this)) = None)"
proof -
  let ?store = "this_errorsByFilePath this"
  let ?ebf = "createMapByKey errors filePath"
  have found: "\<forall>(fp, g) \<in> set ?ebf. map_of ?store fp = Some g"
    using assms(1) createMapByKey_entry [of _ _ errors filePath] by fastforce
  have notfound: "\<forall>fp \<in> set filePaths. map_of ?ebf fp = None \<longrightarrow> getErrorsForFilePath ?store fp = []"
    using assms(2) by (simp add: createMapByKey_None)
  have loops: "setErrorsLoops filePaths errors ?store = (False, ?store)"
    by (simp add: setErrorsLoops_def setFound_same [OF found] clearNotFound_same [OF notfound])
  have same: "setErrorsByFilePaths filePaths errors this = this"
    by (simp add: setErrorsByFilePaths_def loops)
  show ?thesis
    by (simp add: loops same sendErrorsFire_def)
qed

theorem setErrors_noop_witness:
  "map_of (this_errorsByFilePath scenarioCache) ''a.ts'' = Some [e1]
   \<and> map_of (this_errorsByFilePath scenarioCache) ''b.ts'' = Some [e2]
   \<and> map_of (this_errorsByFilePath scenarioCache) ''c.ts'' = None
   \<and> setErrorsByFilePaths [''a.ts'', ''b.ts'', ''c.ts''] [e1, e2] scenarioCache = scenarioCache
   \<and> \<not> sendErrorsPending scenarioCache
   \<and> fst (sendErrorsFire (setErrorsByFilePaths [''a.ts'', ''b.ts'', ''c.ts''] [e1, e2] scenarioCache)) = None"
proof -
  have s1: "map_of (this_errorsByFilePath scenarioCache) ''a.ts'' = Some [e1]"
    and s2: "map_of (this_errorsByFilePath scenarioCache) ''b.ts'' = Some [e2]"
    and s3: "map_of (this_errorsByFilePath scenarioCache) ''c.ts'' = None"
    by code_simp+
  have a: "\<forall>fp \<in> filePath ` set [e1, e2].
       map_of (this_errorsByFilePath scenarioCache) fp = Some (filter (\<lambda>e. filePath e = fp) [e1, e2])"
    by code_simp
  have b: "\<forall>fp \<in> set [''a.ts'', ''b.ts'', ''c.ts''].
       fp \<notin> filePath ` set [e1, e2] \<longrightarrow> getErrorsForFilePath (this_errorsByFilePath scenarioCache) fp = []"
    by code_simp
  have p: "\<not> sendErrorsPending scenarioCache"
    by code_simp
  note t = setErrors_noop [OF a b, THEN conjunct2]
  show ?thesis
    by (intro conjI s1 s2 s3 p t [THEN conjunct1] mp [OF t [THEN conjunct2] p])
qed

lemma setFound_other:
  "p \<notin> fst ` set errorsByFile \<Longrightarrow>
   map_of (snd (setFound errorsByFile (somethingNew, store))) p = map_of store p"
  unfolding setFound_def
  by (induction errorsByFile arbitrary: somethingNew store) (auto simp: update_conv')

lemma clearNotFound_at:
  "getErrorsForFilePath store p = [] \<Longrightarrow>
   map_of (snd (clearNotFound errorsByFile filePaths (somethingNew, store))) p = map_of store p"
  unfolding clearNotFound_def
proof (induction filePaths arbitrary: somethingNew store)
  case Nil
  show ?case by simp
next
  case (Cons fp filePaths)
  have keep: "getErrorsForFilePath (AList.update fp [] store) p = []"
    using Cons.prems by (simp add: getErrorsForFilePath_def update_conv')
  have at_p: "fp = p \<Longrightarrow> map_of (AList.update fp [] store) p = map_of store p"
    if "map_of store fp \<noteq> None"
    using Cons.prems that by (auto simp: getErrorsForFilePath_def update_conv' split: option.splits)
  show ?case
    using Cons.IH [OF keep] Cons.IH [OF Cons.prems] at_p
    by (auto simp: update_conv' split: option.splits)
qed

lemma clearNotFound_removeAll:
  "getErrorsForFilePath store p = [] \<Longrightarrow>
   clearNotFound errorsByFile filePaths (somethingNew, store) =
   clearNotFound errorsByFile (removeAll p filePaths) (somethingNew, store)"
  unfolding clearNotFound_def
proof (induction filePaths arbitrary: somethingNew store)
  case Nil
  show ?case by simp
next
  case (Cons fp filePaths)
  have keep: "getErrorsForFilePath (AList.update fp [] store) p = []"
    using Cons.prems by (simp add: getErrorsForFilePath_def update_conv')
  have skip: "\<not> (case map_of store p of None \<Rightarrow> False | Some es \<Rightarrow> length es \<noteq> 0)"
    using Cons.prems by (simp add: getErrorsForFilePath_def split: option.splits)
  show ?case
    using Cons.IH [OF keep] Cons.IH [OF Cons.prems] skip
    by (cases "fp = p") simp_all
qed

text \<open>
  Claim C10. Let \<open>p\<close> be a path without an error in the batch whose entry in the
  dictionary is absent or the empty list. Then \<^verbatim>\<open>setErrorsByFilePaths\<close> leaves the
  entry of \<open>p\<close> as it is (absent stays absent, empty stays empty), and listing \<open>p\<close> in
  \<^verbatim>\<open>filePaths\<close> makes no difference at all: the call has the same result, with the same
  \<^verbatim>\<open>somethingNew\<close> and the same scheduling, as the call with \<open>p\<close> taken out of
  \<^verbatim>\<open>filePaths\<close>; with \<open>p\<close> alone and no error, the cache is unchanged and nothing is
  scheduled.
\<close>

theorem setErrors_absent_path_untouched:
  assumes "p \<notin> filePath ` set errors"
    and "map_of (this_errorsByFilePath this) p = None \<or> map_of (this_errorsByFilePath this) p = Some []"
  shows "map_of (this_errorsByFilePath (setErrorsByFilePaths filePaths errors this)) p
           = map_of (this_errorsByFilePath this) p
       \<and> setErrorsLoops filePaths errors (this_errorsByFilePath this)
           = setErrorsLoops (removeAll p filePaths) errors (this_errorsByFilePath this)
       \<and> setErrorsByFilePaths filePaths errors this = setErrorsByFilePaths (removeAll p filePaths) errors this
       \<and> setErrorsLoops [p] [] (this_errorsByFilePath this) = (False, this_errorsByFilePath this)
       \<and> setErrorsByFilePaths [p] [] this = this"
proof -
  let ?store = "this_errorsByFilePath this"
  let ?ebf = "createMapByKey errors filePath"
  obtain sn s where found: "setFound ?ebf (False, ?store) = (sn, s)"
    by (cases "setFound ?ebf (False, ?store)")
  have "p \<notin> fst ` set ?ebf"
    using assms(1) by (simp add: createMapByKey_keys)
  from setFound_other [OF this, of False ?store] have sp: "map_of s p = map_of ?store p"
    by (simp add: found)
  have empty: "getErrorsForFilePath s p = []"
    using assms(2) by (auto simp: getErrorsForFilePath_def sp)
  have loops: "setErrorsLoops filePaths errors ?store = setErrorsLoops (removeAll p filePaths) errors ?store"
    using clearNotFound_removeAll [OF empty, of ?ebf filePaths sn]
    by (simp add: setErrorsLoops_def found)
  have "map_of (snd (setErrorsLoops filePaths errors ?store)) p = map_of ?store p"
    using clearNotFound_at [OF empty, of ?ebf filePaths sn]
    by (simp add: setErrorsLoops_def found sp)
  then have entry: "map_of (this_errorsByFilePath (setErrorsByFilePaths filePaths errors this)) p
           = map_of ?store p"
    by (cases "setErrorsLoops filePaths errors ?store")
       (simp add: setErrorsByFilePaths_def sendErrors_def Let_def)
  have alone: "setErrorsLoops [p] [] ?store = (False, ?store)"
    using assms(2)
    by (auto simp: setErrorsLoops_def createMapByKey_def setFound_def clearNotFound_def)
  show ?thesis
    using entry loops alone by (simp add: setErrorsByFilePaths_def)
qed

theorem setErrors_absent_path_untouched_witness:
  "''c.ts'' \<notin> filePath ` set [e3] \<and> map_of (this_errorsByFilePath scenarioCache) ''c.ts'' = None
   \<and> map_of (this_errorsByFilePath (setErrorsByFilePaths [''c.ts'', ''b.ts''] [e3] scenarioCache)) ''c.ts'' = None
   \<and> setErrorsByFilePaths [''c.ts'', ''b.ts''] [e3] scenarioCache
       = setErrorsByFilePaths [''b.ts''] [e3] scenarioCache
   \<and> setErrorsByFilePaths [''c.ts''] [] scenarioCache = scenarioCache"
proof -
  have a: "''c.ts'' \<notin> filePath ` set [e3]"
    by code_simp
  have n: "map_of (this_errorsByFilePath scenarioCache) ''c.ts'' = None"
    by code_simp
  have r: "removeAll ''c.ts'' [''c.ts'', ''b.ts''] = [''b.ts'']"
    by simp
  note t = setErrors_absent_path_untouched [OF a disjI1 [OF n]]
  note t1 = t [of "[''c.ts'', ''b.ts'']", THEN conjunct1, unfolded n]
  note t3 = t [of "[''c.ts'', ''b.ts'']", THEN conjunct2, THEN conjunct2, THEN conjunct1, unfolded r]
  note t5 = t [of "[]", THEN conjunct2, THEN conjunct2, THEN conjunct2, THEN conjunct2]
  show ?thesis
    by (intro conjI a n t1 t3 t5)
qed

subsection \<open>Removing what the target does not have\<close>

lemma missingFrom_pruned:
  "missingFrom (filter (\<lambda>r. errorKey r \<in> errorKey ` set es) rs) es = missingFrom rs es"
proof -
  have "errorKey e \<in> errorKey ` set (filter (\<lambda>r. errorKey r \<in> errorKey ` set es) rs)
        \<longleftrightarrow> errorKey e \<in> errorKey ` set rs"
    if "e \<in> set es" for e
  proof
    assume "errorKey e \<in> errorKey ` set rs"
    then obtain r where r: "r \<in> set rs" "errorKey e = errorKey r"
      by blast
    then have "errorKey r \<in> errorKey ` set es"
      using that by (metis imageI)
    then have "r \<in> set (filter (\<lambda>r. errorKey r \<in> errorKey ` set es) rs)"
      using r(1) by simp
    then show "errorKey e \<in> errorKey ` set (filter (\<lambda>r. errorKey r \<in> errorKey ` set es) rs)"
      unfolding r(2) by (rule imageI)
  next
    assume "errorKey e \<in> errorKey ` set (filter (\<lambda>r. errorKey r \<in> errorKey ` set es) rs)"
    then show "errorKey e \<in> errorKey ` set rs"
      by auto
  qed
  then show ?thesis
    unfolding missingFrom_def by (intro filter_cong refl) simp
qed

lemma missingFrom_absent:
  "\<forall>r \<in> set rs. errorKey r \<notin> errorKey ` set es \<Longrightarrow> missingFrom rs es = es"
  unfolding missingFrom_def
  by (induction es) auto

lemma applyRemovedLoop_pruned:
  "distinct (map fst entries) \<Longrightarrow>
   \<forall>fp \<in> fst ` set entries. getErrorsForFilePath s fp = getErrorsForFilePath t fp \<Longrightarrow>
   foldl (\<lambda>s entry.
              (case entry of (fp, removedErrors) \<Rightarrow>
                 AList.update fp (missingFrom removedErrors (getErrorsForFilePath s fp)) s))
         s entries =
   foldl (\<lambda>s entry.
              (case entry of (fp, removedErrors) \<Rightarrow>
                 AList.update fp (missingFrom removedErrors (getErrorsForFilePath s fp)) s))
         s (map (\<lambda>(fp, rs).
                   (fp, filter (\<lambda>r. errorKey r \<in> errorKey ` set (getErrorsForFilePath t fp)) rs))
              entries)"
proof (induction entries arbitrary: s)
  case Nil
  show ?case by simp
next
  case (Cons entry entries)
  obtain fp rs where entry: "entry = (fp, rs)" by (cases entry)
  let ?s' = "AList.update fp (missingFrom rs (getErrorsForFilePath s fp)) s"
  have here: "getErrorsForFilePath s fp = getErrorsForFilePath t fp"
    using Cons.prems(2) by (simp add: entry)
  have dist: "distinct (map fst entries)" and fresh: "fp \<notin> fst ` set entries"
    using Cons.prems(1) by (simp_all add: entry)
  have rest: "\<forall>q \<in> fst ` set entries. getErrorsForFilePath ?s' q = getErrorsForFilePath t q"
  proof
    fix q assume q: "q \<in> fst ` set entries"
    then have "q \<noteq> fp" using fresh by auto
    then have "getErrorsForFilePath ?s' q = getErrorsForFilePath s q"
      by (simp add: getErrorsForFilePath_def update_conv')
    then show "getErrorsForFilePath ?s' q = getErrorsForFilePath t q"
      using Cons.prems(2) q by (simp add: entry)
  qed
  have pruned: "missingFrom (filter (\<lambda>r. errorKey r \<in> errorKey ` set (getErrorsForFilePath t fp)) rs)
                  (getErrorsForFilePath s fp) = missingFrom rs (getErrorsForFilePath s fp)"
    unfolding here by (rule missingFrom_pruned)
  show ?case
    using Cons.IH [OF dist rest] by (simp add: entry pruned)
qed

text \<open>
  Claim C9. \<^verbatim>\<open>applyDelta\<close> has no failing branch: it is a total function of the
  delta and the cache. The removed errors whose identity key the current list of the
  target at their path (the list after the loop ``Added'') does not have make no
  difference: the result is the same as for the delta without them. When no removed
  error has a key of the current list at its path, every path reads the same list
  after the loop ``Removed'' as before it (a path that the target does not have becomes
  a key with the empty list, which reads as before); with nothing added, that is the
  list the target had before \<^verbatim>\<open>applyDelta\<close>.
\<close>

theorem applyDelta_ignores_absent_keys:
  assumes "wf_store (removed delta)"
  shows "applyDelta delta this =
         applyDelta
           (delta\<lparr> removed :=
               map (\<lambda>(fp, rs).
                      (fp, filter (\<lambda>r. errorKey r \<in> errorKey `
                             set (getErrorsForFilePath (applyAdded (added delta) (this_errorsByFilePath this)) fp))
                           rs))
                 (removed delta) \<rparr>)
           this
       \<and> ((\<forall>(fp, rs) \<in> set (removed delta). \<forall>r \<in> set rs.
               errorKey r \<notin> errorKey `
                 set (getErrorsForFilePath (applyAdded (added delta) (this_errorsByFilePath this)) fp))
            \<longrightarrow> (\<forall>p. getErrorsForFilePath (this_errorsByFilePath (applyDelta delta this)) p
                       = getErrorsForFilePath (applyAdded (added delta) (this_errorsByFilePath this)) p)
              \<and> (added delta = [] \<longrightarrow>
                   (\<forall>p. getErrorsForFilePath (this_errorsByFilePath (applyDelta delta this)) p
                       = getErrorsForFilePath (this_errorsByFilePath this) p)))"
proof -
  let ?t = "applyAdded (added delta) (this_errorsByFilePath this)"
  have dist: "distinct (map fst (removed delta))"
    using assms by (simp add: wf_store_def)
  have 1: "applyRemoved (removed delta) ?t =
           applyRemoved
             (map (\<lambda>(fp, rs). (fp, filter (\<lambda>r. errorKey r \<in> errorKey ` set (getErrorsForFilePath ?t fp)) rs))
                (removed delta)) ?t"
    unfolding applyRemoved_alt by (rule applyRemovedLoop_pruned [OF dist]) simp
  have 2: "getErrorsForFilePath (applyRemoved (removed delta) ?t) p = getErrorsForFilePath ?t p"
    if absent: "\<forall>(fp, rs) \<in> set (removed delta). \<forall>r \<in> set rs.
               errorKey r \<notin> errorKey ` set (getErrorsForFilePath ?t fp)"
    for p
  proof (cases "map_of (removed delta) p")
    case None
    then have "getErrorsForFilePath (removed delta) p = []"
      by (simp add: getErrorsForFilePath_def)
    then show ?thesis
      by (simp add: applyRemoved_errors [OF assms])
  next
    case (Some rs)
    then have "(p, rs) \<in> set (removed delta)"
      by (rule map_of_SomeD)
    with absent have "\<forall>r \<in> set rs. errorKey r \<notin> errorKey ` set (getErrorsForFilePath ?t p)"
      by (blast dest: bspec)
    then have "missingFrom rs (getErrorsForFilePath ?t p) = getErrorsForFilePath ?t p"
      by (rule missingFrom_absent)
    moreover have "getErrorsForFilePath (removed delta) p = rs"
      using Some by (simp add: getErrorsForFilePath_def)
    ultimately show ?thesis
      by (simp add: applyRemoved_errors [OF assms])
  qed
  have 3: "applyAdded [] s = s" for s :: "'a ErrorsByFilePath"
    by (simp add: applyAdded_def)
  show ?thesis
    using 1 2 by (auto simp: applyDelta_def applyDeltaStore_def sendErrors_def 3)
qed

theorem applyDelta_ignores_absent_keys_witness:
  "wf_store (removed staleDelta) \<and> added staleDelta = []
   \<and> removed staleDelta = [(''a.ts'', [e3]), (''c.ts'', [e2])]
   \<and> errorKey e3 \<notin> errorKey ` set (getErrorsForFilePath (this_errorsByFilePath scenarioCache) ''a.ts'')
   \<and> errorKey e2 \<notin> errorKey ` set (getErrorsForFilePath (this_errorsByFilePath scenarioCache) ''c.ts'')
   \<and> (\<forall>p. getErrorsForFilePath (this_errorsByFilePath (applyDelta staleDelta scenarioCache)) p
            = getErrorsForFilePath (this_errorsByFilePath scenarioCache) p)
   \<and> this_errorsByFilePath (applyDelta staleDelta scenarioCache)
       = [(''a.ts'', [e1]), (''b.ts'', [e2]), (''c.ts'', [])]"
proof -
  have a: "wf_store (removed staleDelta)"
    by code_simp
  have n: "added staleDelta = []"
    and r: "removed staleDelta = [(''a.ts'', [e3]), (''c.ts'', [e2])]"
    by code_simp+
  have k1: "errorKey e3 \<notin> errorKey ` set (getErrorsForFilePath (this_errorsByFilePath scenarioCache) ''a.ts'')"
    and k2: "errorKey e2 \<notin> errorKey ` set (getErrorsForFilePath (this_errorsByFilePath scenarioCache) ''c.ts'')"
    by code_simp+
  have h: "\<forall>(fp, rs) \<in> set (removed staleDelta). \<forall>r \<in> set rs.
         errorKey r \<notin> errorKey `
           set (getErrorsForFilePath (applyAdded (added staleDelta) (this_errorsByFilePath scenarioCache)) fp)"
    by code_simp
  have s: "this_errorsByFilePath (applyDelta staleDelta scenarioCache)
       = [(''a.ts'', [e1]), (''b.ts'', [e2]), (''c.ts'', [])]"
    by code_simp
  note t = applyDelta_ignores_absent_keys [OF a, of scenarioCache, THEN conjunct2, THEN mp, OF h]
  show ?thesis
    by (intro conjI a n r k1 k2 s mp [OF t [THEN conjunct2] n])
qed

end
